theory Spec2Isabelle
  imports Main "HOL-Library.Word"
begin

unbundle bit_operations_syntax

section \<open>Bytes, integers and failures\<close>

text \<open>
  A Python \<open>bytes\<close> value is a list of 8-bit words, a Python \<open>int\<close> is an \<open>int\<close>,
  a Python \<open>str\<close> is a \<open>string\<close>. Every exception the code can raise is a value of
  \<open>error\<close>; a fallible function returns \<open>error + 'a\<close> with \<open>Inl\<close> for the raise.

  The source raises \<open>ValueError\<close> for several different reasons; the model keeps them
  apart under the names the specification gives them and \<open>is_ValueError\<close> says which
  ones an \<open>except ValueError\<close> clause catches.
\<close>

type_synonym byte = "8 word"

datatype error =
    InvalidLength      \<comment> \<open>ValueError: "... is an invalid length for a public key."\<close>
  | InvalidVersion     \<comment> \<open>ValueError: "... does not correspond to a mainnet nor testnet address."\<close>
  | InvalidCharacter   \<comment> \<open>ValueError: an invalid base58 encoded character\<close>
  | InvalidChecksum    \<comment> \<open>ValueError: decoded checksum is not equal to hash checksum\<close>
  | InvalidEncoding    \<comment> \<open>ValueError: the signature bytes are not SEQUENCE{INTEGER, INTEGER}\<close>
  | InvalidHex         \<comment> \<open>ValueError: non-hexadecimal text\<close>
  | InvalidPoint       \<comment> \<open>the decompression primitive found no y\<close>
  | InvalidSignature   \<comment> \<open>bit.exceptions.InvalidSignature\<close>
  | OverflowError      \<comment> \<open>int.to_bytes: negative, or too big for the length\<close>
  | IndexError         \<comment> \<open>index out of range\<close>

fun is_ValueError :: "error \<Rightarrow> bool" where
  "is_ValueError InvalidLength = True"
| "is_ValueError InvalidVersion = True"
| "is_ValueError InvalidCharacter = True"
| "is_ValueError InvalidChecksum = True"
| "is_ValueError InvalidEncoding = True"
| "is_ValueError InvalidHex = True"
| "is_ValueError _ = False"

text \<open>\<open>int.from_bytes(bs, 'big')\<close>: the unsigned big-endian value of the bytes.\<close>

definition from_bytes :: "byte list \<Rightarrow> int" where
  "from_bytes bs = foldl (\<lambda>acc b. acc * 256 + uint b) 0 bs"

text \<open>
  The \<open>n\<close> low bytes of \<open>x\<close>, big-endian; and \<open>x.to_bytes(n, 'big')\<close>, which raises
  OverflowError when \<open>x\<close> is negative or does not fit \<open>n\<close> bytes.
\<close>

fun be_bytes :: "nat \<Rightarrow> int \<Rightarrow> byte list" where
  "be_bytes 0 x = []"
| "be_bytes (Suc n) x = be_bytes n (x div 256) @ [word_of_int x]"

definition to_bytes :: "int \<Rightarrow> nat \<Rightarrow> error + byte list" where
  "to_bytes x n = (if x < 0 \<or> 256 ^ n \<le> x then Inl OverflowError else Inr (be_bytes n x))"

text \<open>
  Sequencing of fallible steps: the first failure is the result, as a raised exception
  leaves the function.
\<close>

definition and_then :: "error + 'a \<Rightarrow> ('a \<Rightarrow> error + 'b) \<Rightarrow> error + 'b" where
  "and_then m f = (case m of Inl e \<Rightarrow> Inl e | Inr a \<Rightarrow> f a)"

section \<open>Public keys and curve coordinates\<close>

definition PUBLIC_KEY_UNCOMPRESSED :: "byte list" where
  "PUBLIC_KEY_UNCOMPRESSED = [0x04]"

definition PUBLIC_KEY_COMPRESSED_EVEN_Y :: "byte list" where
  "PUBLIC_KEY_COMPRESSED_EVEN_Y = [0x02]"

definition PUBLIC_KEY_COMPRESSED_ODD_Y :: "byte list" where
  "PUBLIC_KEY_COMPRESSED_ODD_Y = [0x03]"

text \<open>
  \<open>public_key_to_coords\<close>. The decompression primitive \<open>x_to_y\<close> of \<open>bit.curve\<close> is
  not part of this module: it is a parameter, called with \<open>x\<close> and the parity bit
  \<open>flag & 1\<close>, that returns \<open>y\<close> or fails. The slices are Python's:
  \<open>public_key[:1]\<close>, \<open>public_key[1:]\<close>, \<open>public_key[1:33]\<close>, \<open>public_key[33:]\<close>.
\<close>

definition public_key_to_coords ::
    "(int \<Rightarrow> int \<Rightarrow> error + int) \<Rightarrow> byte list \<Rightarrow> error + (int \<times> int)" where
  "public_key_to_coords x_to_y public_key =
     (let length' = length public_key in
      if length' = 33 then
        (let flag = from_bytes (take 1 public_key);
             x = from_bytes (drop 1 public_key)
         in case x_to_y x (flag AND 1) of
              Inl e \<Rightarrow> Inl e
            | Inr y \<Rightarrow> Inr (x, y))
      else if length' = 65 then
        (let x = from_bytes (take 32 (drop 1 public_key));
             y = from_bytes (drop 33 public_key)
         in Inr (x, y))
      else Inl InvalidLength)"

text \<open>\<open>coords_to_public_key\<close>; \<open>y & 1\<close> is the low bit of \<open>y\<close>.\<close>

definition coords_to_public_key :: "int \<Rightarrow> int \<Rightarrow> bool \<Rightarrow> error + byte list" where
  "coords_to_public_key x y compressed =
     (if compressed then
        (let y' = (if y AND 1 \<noteq> 0 then PUBLIC_KEY_COMPRESSED_ODD_Y
                   else PUBLIC_KEY_COMPRESSED_EVEN_Y)
         in case to_bytes x 32 of
              Inl e \<Rightarrow> Inl e
            | Inr xb \<Rightarrow> Inr (y' @ xb))
      else
        (case to_bytes x 32 of
           Inl e \<Rightarrow> Inl e
         | Inr xb \<Rightarrow>
             (case to_bytes y 32 of
                Inl e \<Rightarrow> Inl e
              | Inr yb \<Rightarrow> Inr (PUBLIC_KEY_UNCOMPRESSED @ xb @ yb))))"

text \<open>
  The specification's "valid curve point", relative to the decompression primitive:
  both coordinates are unsigned 32-byte integers and the primitive, given \<open>x\<close> and the
  parity of \<open>y\<close>, returns \<open>y\<close>.
\<close>

definition valid_point :: "(int \<Rightarrow> int \<Rightarrow> error + int) \<Rightarrow> int \<Rightarrow> int \<Rightarrow> bool" where
  "valid_point x_to_y x y \<longleftrightarrow>
     0 \<le> x \<and> x < 2 ^ 256 \<and> 0 \<le> y \<and> y < 2 ^ 256 \<and> x_to_y x (y AND 1) = Inr y"

text \<open>
  The specification's "well-formed" public-key bytes: 65 bytes starting with 0x04, or
  33 bytes starting with 0x02 or 0x03 for which the decompression primitive returns
  a \<open>y\<close> of the parity it was asked for.
\<close>

definition well_formed_public_key :: "(int \<Rightarrow> int \<Rightarrow> error + int) \<Rightarrow> byte list \<Rightarrow> bool" where
  "well_formed_public_key x_to_y pk \<longleftrightarrow>
     (length pk = 65 \<and> take 1 pk = PUBLIC_KEY_UNCOMPRESSED) \<or>
     (length pk = 33 \<and>
      (take 1 pk = PUBLIC_KEY_COMPRESSED_EVEN_Y \<or> take 1 pk = PUBLIC_KEY_COMPRESSED_ODD_Y) \<and>
      (\<exists>y. x_to_y (from_bytes (drop 1 pk)) (from_bytes (take 1 pk) AND 1) = Inr y \<and>
           y AND 1 = from_bytes (take 1 pk) AND 1))"

section \<open>Signatures\<close>

text \<open>
  Modelled from the spec: the bytes that \<open>int_to_unknown_bytes\<close> of \<open>bit.utils\<close>
  returns; that function is not among the sources. The specification: "the
  minimal-length big-endian byte sequence (no superfluous leading zero byte)
  representing the integer". Zero is the single byte 0x00 (the callers index byte 0 of
  the result), and a negative integer has no unsigned representation: OverflowError,
  as \<open>int.to_bytes\<close> raises.
\<close>

function min_bytes :: "int \<Rightarrow> byte list" where
  "min_bytes n = (if n < 256 then [word_of_int n] else min_bytes (n div 256) @ [word_of_int n])"
  by pat_completeness auto
termination
  by (relation "measure nat") auto

declare min_bytes.simps [simp del]

text \<open>
  Modelled from the spec: \<open>int_to_unknown_bytes\<close> of \<open>bit.utils\<close>, on the minimal
  bytes above.
\<close>

definition int_to_unknown_bytes :: "int \<Rightarrow> error + byte list" where
  "int_to_unknown_bytes num =
     (if num < 0 then Inl OverflowError else Inr (min_bytes num))"

text \<open>\<open>bs[0]\<close>, which raises IndexError on empty bytes.\<close>

definition index0 :: "byte list \<Rightarrow> error + byte" where
  "index0 bs = (case bs of [] \<Rightarrow> Inl IndexError | b # _ \<Rightarrow> Inr b)"

text \<open>
  Modelled from the spec: the DER reader behind \<open>decode_dss_signature\<close> of
  \<open>bit.crypto\<close>, which is not among the sources. The specification: a "DER-style integer-pair decode primitive producing
  (r, s) from an encoded signature", the encoding being "0x30, length, (0x02, length,
  r-bytes), (0x02, length, s-bytes)" with integers in "a signed-integer convention".
  The model is a strict DER reader: a definite length in the short form (one byte below
  0x80) or the long form (0x80 + k, then k bytes, used only from 128 up and without a
  leading zero); an INTEGER has at least one content byte, no redundant leading 0x00 or
  0xff, and is read as two's complement; nothing may follow the second INTEGER.
\<close>

fun der_length :: "byte list \<Rightarrow> error + (int \<times> byte list)" where
  "der_length [] = Inl InvalidEncoding"
| "der_length (b # rest) =
     (if b < 0x80 then Inr (uint b, rest)
      else
        (let n = unat b - 128 in
         if n = 0 \<or> length rest < n then Inl InvalidEncoding
         else
           (let v = from_bytes (take n rest) in
            if v < 128 \<or> hd rest = 0 then Inl InvalidEncoding
            else Inr (v, drop n rest))))"

definition signed_from_bytes :: "byte list \<Rightarrow> int" where
  "signed_from_bytes c =
     (if c \<noteq> [] \<and> 0x80 \<le> hd c then from_bytes c - 256 ^ length c else from_bytes c)"

definition der_minimal :: "byte list \<Rightarrow> bool" where
  "der_minimal c =
     (case c of
        [] \<Rightarrow> False
      | [b] \<Rightarrow> True
      | b0 # b1 # _ \<Rightarrow> \<not> (b0 = 0x00 \<and> b1 < 0x80) \<and> \<not> (b0 = 0xff \<and> 0x80 \<le> b1))"

fun der_integer :: "byte list \<Rightarrow> error + (int \<times> byte list)" where
  "der_integer [] = Inl InvalidEncoding"
| "der_integer (t # rest) =
     (if t \<noteq> 0x02 then Inl InvalidEncoding
      else and_then (der_length rest) (\<lambda>(n, rest').
        if int (length rest') < n then Inl InvalidEncoding
        else
          (let c = take (nat n) rest' in
           if \<not> der_minimal c then Inl InvalidEncoding
           else Inr (signed_from_bytes c, drop (nat n) rest'))))"

text \<open>
  Modelled from the spec: \<open>decode_dss_signature\<close> of \<open>bit.crypto\<close>, the SEQUENCE of
  two INTEGERs read by the functions above.
\<close>

fun decode_dss_signature :: "byte list \<Rightarrow> error + (int \<times> int)" where
  "decode_dss_signature [] = Inl InvalidEncoding"
| "decode_dss_signature (t # rest) =
     (if t \<noteq> 0x30 then Inl InvalidEncoding
      else and_then (der_length rest) (\<lambda>(n, body).
        if int (length body) \<noteq> n then Inl InvalidEncoding
        else and_then (der_integer body) (\<lambda>(r, rest1).
          and_then (der_integer rest1) (\<lambda>(s, rest2).
            if rest2 \<noteq> [] then Inl InvalidEncoding else Inr (r, s)))))"

text \<open>
  \<open>make_compliant_sig\<close>, statement by statement. The group order \<open>GROUP_ORDER\<close> of
  \<open>bit.curve\<close> is not among the sources and is a parameter.
\<close>

definition make_compliant_sig :: "int \<Rightarrow> byte list \<Rightarrow> error + byte list" where
  "make_compliant_sig GROUP_ORDER signature =
     and_then (decode_dss_signature signature) (\<lambda>(r, s).
       let s = (if s > GROUP_ORDER div 2 then GROUP_ORDER - s else s) in
       and_then (int_to_unknown_bytes r) (\<lambda>r.
       and_then (int_to_unknown_bytes s) (\<lambda>s.
       and_then (index0 r) (\<lambda>r0.
       let r = (if r0 AND 0x80 \<noteq> 0 then [0x00] @ r else r) in
       and_then (index0 s) (\<lambda>s0.
       let s = (if s0 AND 0x80 \<noteq> 0 then [0x00] @ s else s) in
       and_then (int_to_unknown_bytes (int (length r))) (\<lambda>len_r.
       let r = [0x02] @ len_r @ r in
       and_then (int_to_unknown_bytes (int (length s))) (\<lambda>len_s.
       let s = [0x02] @ len_s @ s in
       and_then (int_to_unknown_bytes (int (length r + length s))) (\<lambda>len_rs.
       Inr ([0x30] @ len_rs @ r @ s)))))))))"

text \<open>
  \<open>verify_sig\<close>. The verification primitive \<open>verify_signature\<close> of \<open>bit.crypto\<close> is a
  parameter; its argument \<open>public_key_to_coords(public_key)\<close> is evaluated before the
  call, so a public key that does not decode fails first.
\<close>

definition verify_sig ::
    "(byte list \<Rightarrow> byte list \<Rightarrow> int \<times> int \<Rightarrow> error + bool) \<Rightarrow> (int \<Rightarrow> int \<Rightarrow> error + int) \<Rightarrow> int
      \<Rightarrow> byte list \<Rightarrow> byte list \<Rightarrow> byte list \<Rightarrow> bool \<Rightarrow> error + bool" where
  "verify_sig verify_signature x_to_y GROUP_ORDER signature data public_key strict =
     and_then
       (if strict then
          and_then (decode_dss_signature signature) (\<lambda>(_, s).
            if s > GROUP_ORDER div 2 then Inl InvalidSignature else Inr ())
        else Inr ())
       (\<lambda>_. and_then (public_key_to_coords x_to_y public_key) (\<lambda>coords.
              verify_signature signature data coords))"

text \<open>
  The serialization of section 4.2 of the specification, in its words: the low-S rule,
  the pad byte, one INTEGER element, and the SEQUENCE of two elements. They are
  compared with \<open>make_compliant_sig\<close> in lemma \<open>make_compliant_sig_eq\<close>.
\<close>

definition low_s :: "int \<Rightarrow> int \<Rightarrow> int" where
  "low_s GROUP_ORDER s = (if s > GROUP_ORDER div 2 then GROUP_ORDER - s else s)"

definition der_pad :: "byte list \<Rightarrow> byte list" where
  "der_pad b = (if 0x80 \<le> hd b then [0x00] @ b else b)"

definition der_element :: "int \<Rightarrow> error + byte list" where
  "der_element x =
     and_then (int_to_unknown_bytes x) (\<lambda>b.
     and_then (int_to_unknown_bytes (int (length (der_pad b)))) (\<lambda>len.
     Inr ([0x02] @ len @ der_pad b)))"

definition encode_sig :: "int \<Rightarrow> int \<Rightarrow> error + byte list" where
  "encode_sig r s =
     and_then (der_element r) (\<lambda>r.
     and_then (der_element s) (\<lambda>s.
     and_then (int_to_unknown_bytes (int (length r + length s))) (\<lambda>len.
     Inr ([0x30] @ len @ r @ s))))"

definition der_int :: "int \<Rightarrow> byte list" where
  "der_int x = [0x02] @ min_bytes (int (length (der_pad (min_bytes x)))) @ der_pad (min_bytes x)"

section \<open>SHA-256 and Base58Check\<close>

text \<open>
  Modelled from the spec: \<open>double_sha256_checksum\<close> of \<open>bit.crypto\<close>, which is not
  among the sources. The specification: "checksum = first 4 bytes of double-hash" and
  "append 4-byte double-SHA256 checksum". SHA-256 is the function of FIPS 180-4, on
  32-bit words.
\<close>

type_synonym u32 = "32 word"

type_synonym sha256_state = "u32 \<times> u32 \<times> u32 \<times> u32 \<times> u32 \<times> u32 \<times> u32 \<times> u32"

definition rotr :: "nat \<Rightarrow> u32 \<Rightarrow> u32" where
  "rotr n x = drop_bit n x OR push_bit (32 - n) x"

definition Ch :: "u32 \<Rightarrow> u32 \<Rightarrow> u32 \<Rightarrow> u32" where
  "Ch x y z = (x AND y) XOR (NOT x AND z)"

definition Maj :: "u32 \<Rightarrow> u32 \<Rightarrow> u32 \<Rightarrow> u32" where
  "Maj x y z = (x AND y) XOR (x AND z) XOR (y AND z)"

definition Sigma0 :: "u32 \<Rightarrow> u32" where
  "Sigma0 x = rotr 2 x XOR rotr 13 x XOR rotr 22 x"

definition Sigma1 :: "u32 \<Rightarrow> u32" where
  "Sigma1 x = rotr 6 x XOR rotr 11 x XOR rotr 25 x"

definition sigma0 :: "u32 \<Rightarrow> u32" where
  "sigma0 x = rotr 7 x XOR rotr 18 x XOR drop_bit 3 x"

definition sigma1 :: "u32 \<Rightarrow> u32" where
  "sigma1 x = rotr 17 x XOR rotr 19 x XOR drop_bit 10 x"

definition sha256_K :: "u32 list" where
  "sha256_K =
     [0x428A2F98, 0x71374491, 0xB5C0FBCF, 0xE9B5DBA5, 0x3956C25B, 0x59F111F1, 0x923F82A4, 0xAB1C5ED5,
      0xD807AA98, 0x12835B01, 0x243185BE, 0x550C7DC3, 0x72BE5D74, 0x80DEB1FE, 0x9BDC06A7, 0xC19BF174,
      0xE49B69C1, 0xEFBE4786, 0x0FC19DC6, 0x240CA1CC, 0x2DE92C6F, 0x4A7484AA, 0x5CB0A9DC, 0x76F988DA,
      0x983E5152, 0xA831C66D, 0xB00327C8, 0xBF597FC7, 0xC6E00BF3, 0xD5A79147, 0x06CA6351, 0x14292967,
      0x27B70A85, 0x2E1B2138, 0x4D2C6DFC, 0x53380D13, 0x650A7354, 0x766A0ABB, 0x81C2C92E, 0x92722C85,
      0xA2BFE8A1, 0xA81A664B, 0xC24B8B70, 0xC76C51A3, 0xD192E819, 0xD6990624, 0xF40E3585, 0x106AA070,
      0x19A4C116, 0x1E376C08, 0x2748774C, 0x34B0BCB5, 0x391C0CB3, 0x4ED8AA4A, 0x5B9CCA4F, 0x682E6FF3,
      0x748F82EE, 0x78A5636F, 0x84C87814, 0x8CC70208, 0x90BEFFFA, 0xA4506CEB, 0xBEF9A3F7, 0xC67178F2]"

definition sha256_H0 :: sha256_state where
  "sha256_H0 =
     (0x6A09E667, 0xBB67AE85, 0x3C6EF372, 0xA54FF53A, 0x510E527F, 0x9B05688C, 0x1F83D9AB, 0x5BE0CD19)"

text \<open>One round, with the round constant \<open>k\<close> and the schedule word \<open>w\<close>.\<close>

fun sha256_round :: "u32 \<Rightarrow> u32 \<Rightarrow> sha256_state \<Rightarrow> sha256_state" where
  "sha256_round k w (a, b, c, d, e, f, g, h) =
     (let t1 = h + Sigma1 e + Ch e f g + k + w;
          t2 = Sigma0 a + Maj a b c
      in (t1 + t2, a, b, c, d + t1, e, f, g))"

text \<open>
  The rounds of one block. \<open>ws\<close> is the window of the 16 schedule words
  \<open>W[t], ..., W[t+15]\<close>; the next one is
  \<open>W[t+16] = sigma1 W[t+14] + W[t+9] + sigma0 W[t+1] + W[t]\<close>.
\<close>

fun sha256_rounds :: "u32 list \<Rightarrow> u32 list \<Rightarrow> sha256_state \<Rightarrow> sha256_state" where
  "sha256_rounds [] ws st = st"
| "sha256_rounds (k # ks) ws st =
     sha256_rounds ks
       (tl ws @ [sigma1 (ws ! 14) + ws ! 9 + sigma0 (ws ! 1) + ws ! 0])
       (sha256_round k (hd ws) st)"

text \<open>The big-endian 32-bit words of a block.\<close>

fun be_words :: "byte list \<Rightarrow> u32 list" where
  "be_words (b0 # b1 # b2 # b3 # rest) = word_of_int (from_bytes [b0, b1, b2, b3]) # be_words rest"
| "be_words _ = []"

fun sha256_add :: "sha256_state \<Rightarrow> sha256_state \<Rightarrow> sha256_state" where
  "sha256_add (a, b, c, d, e, f, g, h) (a', b', c', d', e', f', g', h') =
     (a + a', b + b', c + c', d + d', e + e', f + f', g + g', h + h')"

definition sha256_compress :: "sha256_state \<Rightarrow> byte list \<Rightarrow> sha256_state" where
  "sha256_compress st block = sha256_add st (sha256_rounds sha256_K (be_words block) st)"

function sha256_blocks :: "sha256_state \<Rightarrow> byte list \<Rightarrow> sha256_state" where
  "sha256_blocks st bs =
     (if bs = [] then st else sha256_blocks (sha256_compress st (take 64 bs)) (drop 64 bs))"
  by pat_completeness auto
termination
  by (relation "measure (\<lambda>(st, bs). length bs)") auto

declare sha256_blocks.simps [simp del]

text \<open>
  Padding: the byte 0x80, zero bytes up to 56 modulo 64, and the length of the message
  in bits as a 64-bit big-endian integer.
\<close>

definition sha256_pad :: "byte list \<Rightarrow> byte list" where
  "sha256_pad msg =
     msg @ [0x80] @ replicate (nat ((55 - int (length msg)) mod 64)) 0x00
         @ be_bytes 8 (8 * int (length msg))"

fun sha256_digest :: "sha256_state \<Rightarrow> byte list" where
  "sha256_digest (a, b, c, d, e, f, g, h) =
     concat (map (\<lambda>w. be_bytes 4 (uint w)) [a, b, c, d, e, f, g, h])"

text \<open>
  Modelled from the spec: SHA-256 of a message, for \<open>double_sha256_checksum\<close>: the
  digest of the state after all blocks of the padded message.
\<close>

definition sha256 :: "byte list \<Rightarrow> byte list" where
  "sha256 msg = sha256_digest (sha256_blocks sha256_H0 (sha256_pad msg))"

text \<open>
  Modelled from the spec: \<open>double_sha256_checksum\<close> of \<open>bit.crypto\<close>, the first 4
  bytes of SHA-256 applied twice.
\<close>

definition double_sha256_checksum :: "byte list \<Rightarrow> byte list" where
  "double_sha256_checksum bytestr = take 4 (sha256 (sha256 bytestr))"

text \<open>
  Modelled from the spec: \<open>b58encode_check\<close> and \<open>b58decode_check\<close> of \<open>bit.base58\<close>,
  which is not among the sources. The specification: "base58Check-encode (append
  4-byte double-SHA256 checksum, then base58-encode)" and "base58 encode /
  decode-with-checksum-verification (fails on checksum mismatch)". Base58 is the
  encoding of Bitcoin: the bytes as one big-endian number written in base 58 with the
  alphabet below, each leading zero byte written as the character 1. A character
  outside the alphabet and a checksum mismatch are both ValueError.
\<close>

definition BASE58_ALPHABET :: string where
  "BASE58_ALPHABET = ''123456789ABCDEFGHJKLMNPQRSTUVWXYZabcdefghijkmnopqrstuvwxyz''"

definition BASE58_ALPHABET_INDEX :: "char \<Rightarrow> int option" where
  "BASE58_ALPHABET_INDEX = map_of (zip BASE58_ALPHABET (map int [0..<58]))"

function b58digits :: "int \<Rightarrow> string" where
  "b58digits num =
     (if num \<le> 0 then [] else b58digits (num div 58) @ [BASE58_ALPHABET ! nat (num mod 58)])"
  by pat_completeness auto
termination
  by (relation "measure nat") auto

declare b58digits.simps [simp del]

text \<open>
  Modelled from the spec: \<open>b58encode\<close> of \<open>bit.base58\<close>.
\<close>

definition b58encode :: "byte list \<Rightarrow> string" where
  "b58encode bytestr =
     replicate (length (takeWhile (\<lambda>b. b = 0) bytestr)) CHR ''1'' @ b58digits (from_bytes bytestr)"

fun b58value :: "int \<Rightarrow> string \<Rightarrow> error + int" where
  "b58value num [] = Inr num"
| "b58value num (c # cs) =
     (case BASE58_ALPHABET_INDEX c of
        None \<Rightarrow> Inl InvalidCharacter
      | Some d \<Rightarrow> b58value (num * 58 + d) cs)"

text \<open>
  Modelled from the spec: \<open>b58decode\<close> of \<open>bit.base58\<close>; a character outside
  the alphabet is a ValueError.
\<close>

definition b58decode :: "string \<Rightarrow> error + byte list" where
  "b58decode string =
     and_then (b58value 0 string) (\<lambda>num.
       Inr (replicate (length (takeWhile (\<lambda>c. c = CHR ''1'') string)) 0x00
            @ (if num = 0 then [] else min_bytes num)))"

text \<open>
  Modelled from the spec: \<open>b58encode_check\<close> of \<open>bit.base58\<close>.
\<close>

definition b58encode_check :: "byte list \<Rightarrow> string" where
  "b58encode_check bytestr = b58encode (bytestr @ double_sha256_checksum bytestr)"

text \<open>
  Modelled from the spec: \<open>b58decode_check\<close> of \<open>bit.base58\<close>: the last 4
  decoded bytes are the checksum of the bytes before them, or ValueError.
\<close>

definition b58decode_check :: "string \<Rightarrow> error + byte list" where
  "b58decode_check string =
     and_then (b58decode string) (\<lambda>decoded.
       let shortened = take (length decoded - 4) decoded;
           decoded_checksum = drop (length decoded - 4) decoded;
           hash_checksum = double_sha256_checksum shortened
       in if decoded_checksum \<noteq> hash_checksum then Inl InvalidChecksum
          else Inr shortened)"

text \<open>
  Modelled from the spec: \<open>bytes_to_hex\<close> and \<open>hex_to_bytes\<close> of \<open>bit.utils\<close>, which
  is not among the sources; the specification speaks of "a textual-hex or raw-byte
  representation for a private key". \<open>bytes_to_hex\<close> writes two lower-case digits for
  each byte. \<open>hex_to_bytes\<close> puts a 0 before text of odd length and reads it as
  \<open>bytes.fromhex\<close> does: pairs of hexadecimal digits of either case, ASCII whitespace
  skipped between pairs, ValueError on anything else.
\<close>

definition hex_digits :: string where
  "hex_digits = ''0123456789abcdef''"

text \<open>
  Modelled from the spec: \<open>bytes_to_hex\<close> of \<open>bit.utils\<close>.
\<close>

definition bytes_to_hex :: "byte list \<Rightarrow> string" where
  "bytes_to_hex bytestr =
     concat (map (\<lambda>b. [hex_digits ! (unat b div 16), hex_digits ! (unat b mod 16)]) bytestr)"

definition hex_value :: "char \<Rightarrow> nat option" where
  "hex_value = map_of (zip ''0123456789abcdefABCDEF'' ([0..<16] @ [10..<16]))"

definition ascii_space :: "char \<Rightarrow> bool" where
  "ascii_space c \<longleftrightarrow> c \<in> set [CHR '' '', CHR 0x09, CHR 0x0A, CHR 0x0B, CHR 0x0C, CHR 0x0D]"

fun fromhex :: "string \<Rightarrow> error + byte list" where
  "fromhex [] = Inr []"
| "fromhex [c] = (if ascii_space c then Inr [] else Inl InvalidHex)"
| "fromhex (c # d # cs) =
     (if ascii_space c then fromhex (d # cs)
      else
        (case (hex_value c, hex_value d) of
           (Some hi, Some lo) \<Rightarrow> and_then (fromhex cs) (\<lambda>bs. Inr (of_nat (hi * 16 + lo) # bs))
         | _ \<Rightarrow> Inl InvalidHex))"

text \<open>
  Modelled from the spec: \<open>hex_to_bytes\<close> of \<open>bit.utils\<close>.
\<close>

definition hex_to_bytes :: "string \<Rightarrow> error + byte list" where
  "hex_to_bytes hexed = fromhex (if odd (length hexed) then CHR ''0'' # hexed else hexed)"

section \<open>Addresses and the Wallet Import Format\<close>

definition MAIN_PRIVATE_KEY :: "byte list" where
  "MAIN_PRIVATE_KEY = [0x80]"

definition TEST_PRIVATE_KEY :: "byte list" where
  "TEST_PRIVATE_KEY = [0xef]"

definition PRIVATE_KEY_COMPRESSED_PUBKEY :: "byte list" where
  "PRIVATE_KEY_COMPRESSED_PUBKEY = [0x01]"

text \<open>\<open>address_to_public_key_hash\<close>: \<open>b58decode_check(address)[1:]\<close>.\<close>

definition address_to_public_key_hash :: "string \<Rightarrow> error + byte list" where
  "address_to_public_key_hash address =
     and_then (b58decode_check address) (\<lambda>decoded. Inr (drop 1 decoded))"

text \<open>
  The private key given to \<open>hex_to_wif\<close> is \<open>bytes\<close> or, when
  \<open>isinstance(private_key, bytes)\<close> is false, hexadecimal text.
\<close>

datatype private_key = KeyBytes "byte list" | KeyHex string

definition hex_to_wif :: "private_key \<Rightarrow> string \<Rightarrow> bool \<Rightarrow> error + string" where
  "hex_to_wif private_key version compressed =
     (let prefix = (if version = ''test'' then TEST_PRIVATE_KEY else MAIN_PRIVATE_KEY);
          suffix = (if compressed then PRIVATE_KEY_COMPRESSED_PUBKEY else [])
      in and_then
           (case private_key of
              KeyBytes b \<Rightarrow> Inr b
            | KeyHex h \<Rightarrow> hex_to_bytes h)
           (\<lambda>private_key. Inr (b58encode_check (prefix @ private_key @ suffix))))"

text \<open>\<open>bs[-1]\<close>, which raises IndexError on empty bytes.\<close>

definition index_last :: "byte list \<Rightarrow> error + byte" where
  "index_last bs = (if bs = [] then Inl IndexError else Inr (last bs))"

text \<open>
  \<open>wif_to_hex\<close>. \<open>private_key[-1]\<close> is evaluated only when \<open>len(wif) == 52\<close>;
  \<open>private_key[1:-1]\<close> is \<open>butlast (drop 1 private_key)\<close>. The length of the text
  is its number of characters.
\<close>

definition wif_to_hex :: "string \<Rightarrow> error + (string \<times> bool \<times> string)" where
  "wif_to_hex wif =
     and_then (b58decode_check wif) (\<lambda>private_key.
       let version = take 1 private_key in
       and_then
         (if version = MAIN_PRIVATE_KEY then Inr ''main''
          else if version = TEST_PRIVATE_KEY then Inr ''test''
          else Inl InvalidVersion) (\<lambda>version.
       and_then
         (if length wif = 52 then
            and_then (index_last private_key) (\<lambda>b. Inr (b = 1))
          else Inr False) (\<lambda>flagged.
       let (private_key, compressed) =
             (if flagged then (butlast (drop 1 private_key), True)
              else (drop 1 private_key, False))
       in Inr (bytes_to_hex private_key, compressed, version))))"

text \<open>
  \<open>wif_checksum_check\<close>: the \<open>except ValueError\<close> clause catches the ValueErrors of
  \<open>b58decode_check\<close> and lets any other exception through.
\<close>

definition wif_checksum_check :: "string \<Rightarrow> error + bool" where
  "wif_checksum_check wif =
     (case b58decode_check wif of
        Inl e \<Rightarrow> (if is_ValueError e then Inr False else Inl e)
      | Inr decoded \<Rightarrow>
          (if take 1 decoded = MAIN_PRIVATE_KEY \<or> take 1 decoded = TEST_PRIVATE_KEY
           then Inr True
           else Inr False))"

section \<open>Concrete inputs and instances of the external primitives\<close>

text \<open>
  A decompression primitive that never finds a root; the 65-byte branch of
  \<open>public_key_to_coords\<close> does not call the primitive at all.
\<close>

definition x_to_y_none :: "int \<Rightarrow> int \<Rightarrow> error + int" where
  "x_to_y_none x parity = Inl InvalidPoint"

text \<open>
  The generator of the curve secp256k1 and its group order, and a decompression
  primitive that knows this one point: for the generator's \<open>x\<close> and the parity 0 of its
  \<open>y\<close> it returns that \<open>y\<close>.
\<close>

definition secp256k1_Gx :: int where
  "secp256k1_Gx = 0x79BE667EF9DCBBAC55A06295CE870B07029BFCDB2DCE28D959F2815B16F81798"

definition secp256k1_Gy :: int where
  "secp256k1_Gy = 0x483ADA7726A3C4655DA4FBFC0E1108A8FD17B448A68554199C47D08FFB10D4B8"

definition secp256k1_N :: int where
  "secp256k1_N = 0xFFFFFFFFFFFFFFFFFFFFFFFFFFFFFFFEBAAEDCE6AF48A03BBFD25E8CD0364141"

definition x_to_y_G :: "int \<Rightarrow> int \<Rightarrow> error + int" where
  "x_to_y_G x parity =
     (if x = secp256k1_Gx \<and> parity = 0 then Inr secp256k1_Gy else Inl InvalidPoint)"

definition secp256k1_G_compressed :: "byte list" where
  "secp256k1_G_compressed =
     [0x02,
      0x79, 0xBE, 0x66, 0x7E, 0xF9, 0xDC, 0xBB, 0xAC, 0x55, 0xA0, 0x62, 0x95, 0xCE, 0x87, 0x0B, 0x07,
      0x02, 0x9B, 0xFC, 0xDB, 0x2D, 0xCE, 0x28, 0xD9, 0x59, 0xF2, 0x81, 0x5B, 0x16, 0xF8, 0x17, 0x98]"

text \<open>A verification primitive that accepts every signature.\<close>

definition verify_signature_accept :: "byte list \<Rightarrow> byte list \<Rightarrow> int \<times> int \<Rightarrow> error + bool" where
  "verify_signature_accept signature data point = Inr True"



definition high_s_signature :: "byte list" where
  "high_s_signature =
     [0x30, 0x26, 0x02, 0x01, 0x01, 0x02, 0x21, 0x00,
      0xFF, 0xFF, 0xFF, 0xFF, 0xFF, 0xFF, 0xFF, 0xFF, 0xFF, 0xFF, 0xFF, 0xFF, 0xFF, 0xFF, 0xFF, 0xFE,
      0xBA, 0xAE, 0xDC, 0xE6, 0xAF, 0x48, 0xA0, 0x3B, 0xBF, 0xD2, 0x5E, 0x8C, 0xD0, 0x36, 0x41, 0x40]"

text \<open>
  The private key 1 as 32 bytes, and its compressed Wallet Import Format text on the
  main network, the concrete vector of the specification.
\<close>

definition key_one :: "byte list" where
  "key_one = replicate 31 0x00 @ [0x01]"

definition wif_one_compressed :: string where
  "wif_one_compressed = ''KwDiBf89QgGbjEhKnhXJuH7LrciVrZi3qYjgd9M7rFU73sVHnoWn''"

text \<open>The SHA-256 digest of the payload \<open>0x80 # key_one @ [0x01]\<close>.\<close>

definition digest_one_compressed :: "byte list" where
  "digest_one_compressed =
    [0x96, 0xc3, 0xd2, 0xaa, 0x47, 0x8d, 0x33, 0xf0, 0x42, 0x9b, 0x6a, 0xfc, 0x2a, 0xe1, 0x67, 0x74,
     0xf0, 0x53, 0xc7, 0xe6, 0x91, 0x9c, 0x60, 0x3d, 0x8e, 0xbf, 0x8b, 0xe5, 0x2a, 0x41, 0xb5, 0x88]"

section \<open>Big-endian conversions\<close>

lemma foldl_from_bytes_acc:
  "foldl (\<lambda>acc b. acc * 256 + uint b) a (bs :: byte list)
     = a * 256 ^ length bs + foldl (\<lambda>acc b. acc * 256 + uint b) 0 bs"
proof (induction bs arbitrary: a)
  case Nil
  show ?case by simp
next
  case (Cons b bs)
  have "foldl (\<lambda>acc b. acc * 256 + uint b) a (b # bs)
          = (a * 256 + uint b) * 256 ^ length bs + foldl (\<lambda>acc b. acc * 256 + uint b) 0 bs"
    using Cons.IH [of "a * 256 + uint b"] by simp
  moreover have "foldl (\<lambda>acc b. acc * 256 + uint b) 0 (b # bs)
          = uint b * 256 ^ length bs + foldl (\<lambda>acc b. acc * 256 + uint b) 0 bs"
    using Cons.IH [of "uint b"] by simp
  ultimately show ?case by (simp add: algebra_simps)
qed

lemma from_bytes_Nil [simp]: "from_bytes [] = 0"
  by (simp add: from_bytes_def)

lemma from_bytes_Cons: "from_bytes (b # bs) = uint b * 256 ^ length bs + from_bytes bs"
  unfolding from_bytes_def using foldl_from_bytes_acc [of "uint b" bs] by simp

lemma from_bytes_snoc: "from_bytes (bs @ [b]) = from_bytes bs * 256 + uint b"
  by (simp add: from_bytes_def)

lemma from_bytes_append:
  "from_bytes (as @ bs) = from_bytes as * 256 ^ length bs + from_bytes bs"
  unfolding from_bytes_def using foldl_from_bytes_acc [of "foldl (\<lambda>acc b. acc * 256 + uint b) 0 as" bs]
  by simp

lemma from_bytes_nonneg: "0 \<le> from_bytes bs"
  by (induction bs rule: rev_induct) (simp_all add: from_bytes_snoc)

lemma from_bytes_bound: "from_bytes bs < 256 ^ length bs"
proof (induction bs rule: rev_induct)
  case Nil
  show ?case by simp
next
  case (snoc b bs)
  have "uint b < 256" using uint_bounded [of b] by simp
  with snoc show ?case by (simp add: from_bytes_snoc)
qed

lemma uint_byte_of_int: "uint (word_of_int k :: byte) = k mod 256"
  by (simp add: uint_word_of_int)

lemma length_be_bytes [simp]: "length (be_bytes n x) = n"
  by (induction n arbitrary: x) simp_all

lemma from_bytes_be_bytes: "from_bytes (be_bytes n x) = x mod 256 ^ n"
proof (induction n arbitrary: x)
  case 0
  show ?case by simp
next
  case (Suc n)
  have "uint (word_of_int x :: byte) = x mod 256"
    by (simp add: uint_word_of_int)
  then have "from_bytes (be_bytes (Suc n) x) = (x div 256) mod 256 ^ n * 256 + x mod 256"
    by (simp add: from_bytes_snoc Suc.IH)
  also have "\<dots> = x mod 256 ^ Suc n"
    by (simp add: zmod_zmult2_eq)
  finally show ?case .
qed

lemma be_bytes_from_bytes: "be_bytes (length bs) (from_bytes bs) = bs"
proof (induction bs rule: rev_induct)
  case Nil
  show ?case by simp
next
  case (snoc b bs)
  have b: "uint b < 256" "0 \<le> uint b" using uint_bounded [of b] by simp_all
  have d: "(from_bytes bs * 256 + uint b) div 256 = from_bytes bs"
    using b by simp
  have "uint (word_of_int (from_bytes bs * 256 + uint b) :: byte)
          = (from_bytes bs * 256 + uint b) mod 256"
    by (rule uint_byte_of_int)
  also have "\<dots> = uint b" using b by simp
  finally have w: "(word_of_int (from_bytes bs * 256 + uint b) :: byte) = b"
    by (rule word_uint_eqI)
  have "be_bytes (length (bs @ [b])) (from_bytes (bs @ [b]))
          = be_bytes (Suc (length bs)) (from_bytes bs * 256 + uint b)"
    by (simp add: from_bytes_snoc)
  also have "\<dots> = be_bytes (length bs) ((from_bytes bs * 256 + uint b) div 256)
                    @ [word_of_int (from_bytes bs * 256 + uint b)]"
    by (rule be_bytes.simps(2))
  also have "\<dots> = bs @ [b]"
    by (simp only: d w snoc)
  finally show ?case .
qed

lemma to_bytes_from_bytes: "to_bytes (from_bytes bs) (length bs) = Inr bs"
  using from_bytes_nonneg [of bs] from_bytes_bound [of bs]
  by (simp add: to_bytes_def be_bytes_from_bytes)

lemma from_bytes_to_bytes: "to_bytes x n = Inr bs \<Longrightarrow> from_bytes bs = x \<and> length bs = n"
  by (auto simp: to_bytes_def from_bytes_be_bytes split: if_splits)

lemma to_bytes_ok: "0 \<le> x \<Longrightarrow> x < 256 ^ n \<Longrightarrow> to_bytes x n = Inr (be_bytes n x)"
  by (simp add: to_bytes_def)

lemma from_bytes_be_bytes_id: "0 \<le> x \<Longrightarrow> x < 256 ^ n \<Longrightarrow> from_bytes (be_bytes n x) = x"
  by (simp add: from_bytes_be_bytes)

lemma pow_256_32: "(256::int) ^ 32 = 2 ^ 256"
  by simp

lemma and_one_cases: "(y::int) AND 1 = 0 \<or> y AND 1 = 1"
  by (simp add: and_one_eq) presburger

lemma and_then_Inr [simp]: "and_then (Inr a) f = f a"
  by (simp add: and_then_def)

lemma and_then_Inl [simp]: "and_then (Inl e) f = Inl e"
  by (simp add: and_then_def)

section \<open>Minimal bytes, DER elements and the decoder\<close>

lemma and_0x80_bit: "(b AND 0x80 = 0) = (\<not> bit (b::byte) 7)"
  using and_exp_eq_0_iff_not_bit [of b 7] by simp

lemma odd_div_128:
  assumes "0 \<le> (k::int)" "k < 256"
  shows "odd (k div 128) = (128 \<le> k)"
proof (cases "128 \<le> k")
  case True
  have "k div 128 = ((k - 128) + 128) div 128" by simp
  also have "\<dots> = (k - 128) div 128 + 1" by (rule div_add_self2) simp
  also have "(k - 128) div 128 = 0" using True assms by (simp add: div_pos_pos_trivial)
  finally show ?thesis using True by simp
next
  case False
  then have "k div 128 = 0" using assms by (simp add: div_pos_pos_trivial)
  with False show ?thesis by simp
qed

lemma bit_7_le: "bit (b::byte) 7 = (0x80 \<le> b)"
proof -
  have u: "uint b < 256" "0 \<le> uint b" using uint_bounded [of b] by simp_all
  have "bit b 7 = bit (uint b) 7"
    by (simp add: bit_uint_iff)
  also have "\<dots> = odd (uint b div 2 ^ 7)"
    by (simp only: bit_iff_odd)
  also have "\<dots> = odd (uint b div 128)" by simp
  also have "\<dots> = (128 \<le> uint b)" using u(2,1) by (rule odd_div_128)
  also have "\<dots> = (0x80 \<le> b)" by (simp add: word_le_def)
  finally show ?thesis .
qed

lemma byte_high_bit: "(b AND 0x80 \<noteq> 0) = (0x80 \<le> (b::byte))"
  using and_0x80_bit bit_7_le by simp

lemma min_bytes_nonempty: "min_bytes n \<noteq> []"
  by (induction n rule: min_bytes.induct) (subst min_bytes.simps, simp)

lemma from_bytes_min_bytes: "0 \<le> n \<Longrightarrow> from_bytes (min_bytes n) = n"
proof (induction n rule: min_bytes.induct)
  case (1 n)
  show ?case
  proof (cases "n < 256")
    case True
    with 1(2) show ?thesis
      by (subst min_bytes.simps) (simp add: from_bytes_Cons uint_byte_of_int)
  next
    case False
    with 1 have "from_bytes (min_bytes (n div 256)) = n div 256" by simp
    with False show ?thesis
      by (subst min_bytes.simps) (simp add: from_bytes_snoc uint_byte_of_int)
  qed
qed

lemma length_min_bytes: "0 \<le> n \<Longrightarrow> n < 256 ^ Suc k \<Longrightarrow> length (min_bytes n) \<le> Suc k"
proof (induction k arbitrary: n)
  case 0
  then show ?case by (subst min_bytes.simps) simp
next
  case (Suc k)
  show ?case
  proof (cases "n < 256")
    case True
    then show ?thesis by (subst min_bytes.simps) simp
  next
    case False
    have "n div 256 < 256 ^ Suc k" using Suc.prems by (simp add: div_less_iff_less_mult) 
    moreover have "0 \<le> n div 256" using Suc.prems by simp
    ultimately have "length (min_bytes (n div 256)) \<le> Suc k" by (rule Suc.IH [rotated])
    with False show ?thesis by (subst min_bytes.simps) simp
  qed
qed

lemma hd_min_bytes: "0 \<le> n \<Longrightarrow> hd (min_bytes n) = 0 \<Longrightarrow> n = 0"
proof (induction n rule: min_bytes.induct)
  case (1 n)
  show ?case
  proof (cases "n < 256")
    case True
    from 1(3) True have "(word_of_int n :: byte) = 0"
      by (subst (asm) min_bytes.simps) simp
    then have "uint (word_of_int n :: byte) = 0" by simp
    then show ?thesis using True 1(2) by (simp add: uint_byte_of_int)
  next
    case False
    have ne: "min_bytes (n div 256) \<noteq> []" by (rule min_bytes_nonempty)
    from 1(3) False have "hd (min_bytes (n div 256)) = 0"
      by (subst (asm) min_bytes.simps) (simp add: ne)
    with 1(1) [OF False] 1(2) have "n div 256 = 0" by simp
    with False 1(2) show ?thesis by simp
  qed
qed

lemma index0_min_bytes: "index0 (min_bytes n) = Inr (hd (min_bytes n))"
  using min_bytes_nonempty [of n] by (cases "min_bytes n") (simp_all add: index0_def)

lemma int_to_unknown_bytes_nonneg:
  "0 \<le> k \<Longrightarrow> int_to_unknown_bytes k = Inr (min_bytes k)"
  by (simp add: int_to_unknown_bytes_def)

lemma make_compliant_sig_eq:
  "make_compliant_sig GROUP_ORDER signature =
     and_then (decode_dss_signature signature) (\<lambda>(r, s). encode_sig r (low_s GROUP_ORDER s))"
proof (cases "decode_dss_signature signature")
  case (Inl e)
  then show ?thesis by (simp add: make_compliant_sig_def)
next
  case (Inr p)
  obtain r s where p: "p = (r, s)" by (cases p)
  show ?thesis
    unfolding make_compliant_sig_def Inr p
    by (simp add: encode_sig_def der_element_def int_to_unknown_bytes_def index0_min_bytes
        der_pad_def byte_high_bit low_s_def Let_def)
qed

lemma min_bytes_small: "0 \<le> n \<Longrightarrow> n < 256 \<Longrightarrow> min_bytes n = [word_of_int n]"
  by (subst min_bytes.simps) simp

lemma short_length_byte:
  assumes "0 \<le> k" "k < 128"
  shows "(word_of_int k :: byte) < 0x80" and "uint (word_of_int k :: byte) = k"
proof -
  have "uint (word_of_int k :: byte) = k mod 256" by (rule uint_byte_of_int)
  with assms show u: "uint (word_of_int k :: byte) = k" by simp
  have "uint (word_of_int k :: byte) < uint (0x80 :: byte)" unfolding u using assms by simp
  then show "(word_of_int k :: byte) < 0x80" by (simp only: word_less_def)
qed

lemma der_length_short:
  assumes "0 \<le> k" "k < 128"
  shows "der_length (min_bytes k @ rest) = Inr (k, rest)"
proof -
  have "min_bytes k = [word_of_int k]" using assms by (simp add: min_bytes_small)
  then have "der_length (min_bytes k @ rest) = der_length (word_of_int k # rest)" by simp
  also have "\<dots> = Inr (k, rest)"
    unfolding der_length.simps using short_length_byte [OF assms] by (simp only: if_True)
  finally show ?thesis .
qed

lemma der_pad_nonempty: "der_pad (min_bytes x) \<noteq> []"
  using min_bytes_nonempty [of x] by (simp add: der_pad_def)

lemma length_der_pad: 
  assumes "0 \<le> x" "x < 2 ^ 256"
  shows "length (der_pad (min_bytes x)) \<le> 33"
proof -
  have "x < 256 ^ Suc 31" using assms by simp
  with assms(1) have "length (min_bytes x) \<le> Suc 31" by (rule length_min_bytes)
  then show ?thesis by (simp add: der_pad_def)
qed

lemma signed_from_bytes_der_pad:
  assumes "0 \<le> x"
  shows "signed_from_bytes (der_pad (min_bytes x)) = x"
proof (cases "0x80 \<le> hd (min_bytes x)")
  case True
  then show ?thesis
    using assms by (simp add: der_pad_def signed_from_bytes_def from_bytes_Cons from_bytes_min_bytes)
next
  case False
  then show ?thesis
    using assms by (simp add: der_pad_def signed_from_bytes_def from_bytes_min_bytes)
qed

lemma der_minimal_der_pad:
  assumes "0 \<le> x"
  shows "der_minimal (der_pad (min_bytes x))"
proof (cases "min_bytes x")
  case Nil
  then show ?thesis using min_bytes_nonempty [of x] by simp
next
  case (Cons b0 bs)
  show ?thesis
  proof (cases "0x80 \<le> b0")
    case True
    then show ?thesis by (auto simp add: der_pad_def der_minimal_def Cons)
  next
    case False
    show ?thesis
    proof (cases bs)
      case Nil
      with False Cons show ?thesis by (simp add: der_pad_def der_minimal_def)
    next
      case c2: (Cons b1 cs)
      have "b0 \<noteq> 0"
      proof
        assume "b0 = 0"
        then have "hd (min_bytes x) = 0" using Cons by simp
        with assms have "x = 0" by (rule hd_min_bytes)
        then have "min_bytes x = [0]" by (simp add: min_bytes_small)
        with Cons c2 show False by simp
      qed
      moreover have "b0 \<noteq> 0xff" using False by auto
      ultimately show ?thesis using False Cons c2 by (simp add: der_pad_def der_minimal_def)
    qed
  qed
qed

lemma der_element_nonneg: "0 \<le> x \<Longrightarrow> der_element x = Inr (der_int x)"
  by (simp add: der_element_def der_int_def int_to_unknown_bytes_nonneg)


lemma length_der_int:
  assumes "0 \<le> x" "x < 2 ^ 256"
  shows "length (der_int x) \<le> 35"
proof -
  have "length (der_pad (min_bytes x)) \<le> 33" using assms by (rule length_der_pad)
  then show ?thesis by (simp add: der_int_def min_bytes_small)
qed

lemma der_integer_der_int:
  assumes "0 \<le> x" "x < 2 ^ 256"
  shows "der_integer (der_int x @ rest) = Inr (x, rest)"
proof -
  let ?p = "der_pad (min_bytes x)"
  have l: "int (length ?p) < 128" using length_der_pad [OF assms] by simp
  have dl: "der_length (min_bytes (int (length ?p)) @ (?p @ rest)) = Inr (int (length ?p), ?p @ rest)"
    using der_length_short [of "int (length ?p)" "?p @ rest"] l by simp
  have "der_integer (der_int x @ rest)
          = and_then (der_length (min_bytes (int (length ?p)) @ (?p @ rest))) (\<lambda>(n, rest').
              if int (length rest') < n then Inl InvalidEncoding
              else (let c = take (nat n) rest' in
                    if \<not> der_minimal c then Inl InvalidEncoding
                    else Inr (signed_from_bytes c, drop (nat n) rest')))"
    by (simp add: der_int_def)
  also have "\<dots> = Inr (x, rest)"
    using assms(1) by (simp add: dl der_minimal_der_pad signed_from_bytes_der_pad)
  finally show ?thesis .
qed

lemma encode_sig_nonneg:
  "0 \<le> r \<Longrightarrow> 0 \<le> s \<Longrightarrow>
   encode_sig r s = Inr ([0x30] @ min_bytes (int (length (der_int r) + length (der_int s)))
                         @ der_int r @ der_int s)"
  by (simp add: encode_sig_def der_element_nonneg int_to_unknown_bytes_nonneg)

lemma decode_encode_sig:
  assumes "0 \<le> r" "r < 2 ^ 256" "0 \<le> s" "s < 2 ^ 256"
  shows "and_then (encode_sig r s) decode_dss_signature = Inr (r, s)"
proof -
  let ?body = "der_int r @ der_int s"
  have l: "int (length ?body) < 128"
    using length_der_int [OF assms(1,2)] length_der_int [OF assms(3,4)] by simp
  have dl: "der_length (min_bytes (int (length ?body)) @ ?body) = Inr (int (length ?body), ?body)"
    using der_length_short [of "int (length ?body)" ?body] l by simp
  have "and_then (encode_sig r s) decode_dss_signature
          = decode_dss_signature ([0x30] @ min_bytes (int (length ?body)) @ ?body)"
    using assms by (simp add: encode_sig_nonneg)
  also have "\<dots> = and_then (der_length (min_bytes (int (length ?body)) @ ?body)) (\<lambda>(n, body).
        if int (length body) \<noteq> n then Inl InvalidEncoding
        else and_then (der_integer body) (\<lambda>(r, rest1).
          and_then (der_integer rest1) (\<lambda>(s, rest2).
            if rest2 \<noteq> [] then Inl InvalidEncoding else Inr (r, s))))"
    by simp
  also have "\<dots> = Inr (r, s)"
    unfolding dl
    using der_integer_der_int [OF assms(1,2), of "der_int s"]
          der_integer_der_int [OF assms(3,4), of "[]"]
    by simp
  finally show ?thesis .
qed




section \<open>Base58, the checksum and hexadecimal text\<close>

lemma length_BASE58_ALPHABET: "length BASE58_ALPHABET = 58"
  by (simp add: BASE58_ALPHABET_def)

lemma distinct_BASE58_ALPHABET: "distinct BASE58_ALPHABET"
  by (simp add: BASE58_ALPHABET_def)

lemma BASE58_ALPHABET_INDEX_nth:
  assumes "i < 58"
  shows "BASE58_ALPHABET_INDEX (BASE58_ALPHABET ! i) = Some (int i)"
proof -
  have "map_of (zip BASE58_ALPHABET (map int [0..<58])) (BASE58_ALPHABET ! i)
          = Some (map int [0..<58] ! i)"
    using assms distinct_BASE58_ALPHABET
    by (intro map_of_zip_nth) (simp_all add: length_BASE58_ALPHABET)
  then show ?thesis using assms by (simp add: BASE58_ALPHABET_INDEX_def)
qed

lemma BASE58_ALPHABET_0: "BASE58_ALPHABET ! 0 = CHR ''1''"
  by (simp add: BASE58_ALPHABET_def)

lemma BASE58_ALPHABET_not_1:
  assumes "0 < i" "i < 58"
  shows "BASE58_ALPHABET ! i \<noteq> CHR ''1''"
proof
  assume "BASE58_ALPHABET ! i = CHR ''1''"
  then have "BASE58_ALPHABET ! i = BASE58_ALPHABET ! 0" by (simp add: BASE58_ALPHABET_0)
  with assms distinct_BASE58_ALPHABET have "i = 0"
    by (simp add: nth_eq_iff_index_eq length_BASE58_ALPHABET)
  with assms show False by simp
qed

lemma BASE58_ALPHABET_INDEX_1: "BASE58_ALPHABET_INDEX CHR ''1'' = Some 0"
  using BASE58_ALPHABET_INDEX_nth [of 0] by (simp add: BASE58_ALPHABET_0)

lemma b58value_append:
  "b58value a (xs @ ys) = and_then (b58value a xs) (\<lambda>v. b58value v ys)"
  by (induction xs arbitrary: a) (simp_all split: option.splits)

lemma b58value_ones: "b58value 0 (replicate z CHR ''1'') = Inr 0"
  by (induction z) (simp_all add: BASE58_ALPHABET_INDEX_1)

lemma b58value_b58digits: "0 \<le> n \<Longrightarrow> b58value 0 (b58digits n) = Inr n"
proof (induction n rule: b58digits.induct)
  case (1 n)
  show ?case
  proof (cases "n \<le> 0")
    case True
    with 1(2) show ?thesis by (subst b58digits.simps) simp
  next
    case False
    then have ih: "b58value 0 (b58digits (n div 58)) = Inr (n div 58)"
      using 1 by simp
    have m: "nat (n mod 58) < 58" by simp
    have "b58value 0 (b58digits n)
            = b58value 0 (b58digits (n div 58) @ [BASE58_ALPHABET ! nat (n mod 58)])"
      using False by (subst b58digits.simps) simp
    also have "\<dots> = Inr (n div 58 * 58 + n mod 58)"
      by (simp add: b58value_append ih BASE58_ALPHABET_INDEX_nth [OF m])
    finally show ?thesis by simp
  qed
qed

lemma b58digits_hd:
  "0 < n \<Longrightarrow> b58digits n \<noteq> [] \<and> hd (b58digits n) \<noteq> CHR ''1''"
proof (induction n rule: b58digits.induct)
  case (1 n)
  then have pos: "\<not> n \<le> 0" by simp
  have eq: "b58digits n = b58digits (n div 58) @ [BASE58_ALPHABET ! nat (n mod 58)]"
    using pos by (subst b58digits.simps) simp
  show ?case
  proof (cases "n div 58 = 0")
    case True
    then have "b58digits (n div 58) = []" by (subst b58digits.simps) simp
    moreover have "n mod 58 = n" using True 1(2) by (simp add: div_eq_0_iff)
    moreover have "BASE58_ALPHABET ! nat n \<noteq> CHR ''1''"
      using True 1(2) by (intro BASE58_ALPHABET_not_1) (simp_all add: div_eq_0_iff)
    ultimately show ?thesis using eq by simp
  next
    case False
    then have "0 < n div 58" using 1(2) by (simp add: pos_imp_zdiv_pos_iff)
    with 1(1) [OF pos] have "b58digits (n div 58) \<noteq> [] \<and> hd (b58digits (n div 58)) \<noteq> CHR ''1''"
      by simp
    then show ?thesis using eq by simp
  qed
qed

lemma from_bytes_pos: "bs \<noteq> [] \<Longrightarrow> hd bs \<noteq> 0 \<Longrightarrow> 0 < from_bytes bs"
proof (cases bs)
  case Nil
  assume "bs \<noteq> []" with Nil show ?thesis by simp
next
  case (Cons b rest)
  assume "hd bs \<noteq> 0"
  with Cons have "uint b \<noteq> 0" by (simp add: uint_0_iff)
  moreover have "0 \<le> uint b" by simp
  ultimately have "1 \<le> uint b" by linarith
  then have "1 * 256 ^ length rest \<le> uint b * (256 ^ length rest :: int)"
    by (intro mult_right_mono) simp_all
  then have "0 < uint b * (256 ^ length rest :: int)" 
    using zero_less_power [of "256::int" "length rest"] by linarith
  with from_bytes_nonneg [of rest] show ?thesis unfolding Cons from_bytes_Cons by linarith
qed

lemma min_bytes_from_bytes:
  "bs \<noteq> [] \<Longrightarrow> hd bs \<noteq> 0 \<Longrightarrow> min_bytes (from_bytes bs) = bs"
proof (induction bs rule: rev_induct)
  case Nil
  then show ?case by simp
next
  case (snoc b xs)
  have ub: "0 \<le> uint b" "uint b < 256" using uint_bounded [of b] by simp_all
  show ?case
  proof (cases "xs = []")
    case True
    have "(word_of_int (uint b) :: byte) = b" by simp
    with True ub show ?thesis by (simp add: from_bytes_Cons min_bytes_small)
  next
    case False
    with snoc.prems have hd: "hd xs \<noteq> 0" by simp
    have pos: "0 < from_bytes xs" using False hd by (rule from_bytes_pos)
    let ?n = "from_bytes xs * 256 + uint b"
    have big: "\<not> ?n < 256" using pos ub by linarith
    have d: "?n div 256 = from_bytes xs" using ub by simp
    have "uint (word_of_int ?n :: byte) = ?n mod 256" by (rule uint_byte_of_int)
    also have "\<dots> = uint b" using ub by simp
    finally have w: "(word_of_int ?n :: byte) = b" by (rule word_uint_eqI)
    have "min_bytes ?n = min_bytes (?n div 256) @ [word_of_int ?n]"
      using big by (subst min_bytes.simps) (simp only: if_False)
    also have "\<dots> = xs @ [b]"
      unfolding d w using snoc.IH [OF False hd] by simp
    finally show ?thesis by (simp add: from_bytes_snoc)
  qed
qed

lemma from_bytes_zeros: "from_bytes (replicate z 0 @ bs) = from_bytes bs"
  by (induction z) (simp_all add: from_bytes_Cons)

lemma takeWhile_eq_replicate: "takeWhile (\<lambda>x. x = a) xs = replicate (length (takeWhile (\<lambda>x. x = a) xs)) a"
  by (induction xs) simp_all

lemma takeWhile_replicate_append:
  "ys = [] \<or> hd ys \<noteq> a \<Longrightarrow> takeWhile (\<lambda>x. x = a) (replicate z a @ ys) = replicate z a"
  by (induction z) (auto simp: takeWhile_eq_Nil_iff neq_Nil_conv)

lemma dropWhile_hd: "dropWhile P xs = [] \<or> \<not> P (hd (dropWhile P xs))"
  using hd_dropWhile [of P xs] by blast

lemma b58decode_b58encode: "b58decode (b58encode bs) = Inr bs"
proof -
  let ?z = "length (takeWhile (\<lambda>b. b = 0) bs)"
  let ?rest = "dropWhile (\<lambda>b. b = 0) bs"
  let ?n = "from_bytes bs"
  have split: "bs = replicate ?z 0 @ ?rest"
    using takeWhile_eq_replicate [of 0 bs] takeWhile_dropWhile_id [of "\<lambda>b. b = 0" bs] by simp
  have rest: "?rest = [] \<or> hd ?rest \<noteq> 0" by (rule dropWhile_hd)
  have n: "?n = from_bytes ?rest"
    using from_bytes_zeros [of ?z ?rest] split by simp
  have nn: "0 \<le> ?n" by (rule from_bytes_nonneg)
  have tail: "(if ?n = 0 then [] else min_bytes ?n) = ?rest"
  proof (cases "?rest = []")
    case True
    show ?thesis unfolding n True by simp
  next
    case False
    with rest have h: "hd ?rest \<noteq> 0" by blast
    from from_bytes_pos [OF False h] min_bytes_from_bytes [OF False h] show ?thesis
      unfolding n by simp
  qed
  have digs: "b58digits ?n = [] \<or> hd (b58digits ?n) \<noteq> CHR ''1''"
  proof (cases "?n = 0")
    case True
    then show ?thesis by (subst b58digits.simps) simp
  next
    case False
    with nn have "0 < ?n" by simp
    then show ?thesis using b58digits_hd by blast
  qed
  have val: "b58value 0 (b58encode bs) = Inr ?n"
    by (simp add: b58encode_def b58value_append b58value_ones b58value_b58digits nn)
  have ones: "length (takeWhile (\<lambda>c. c = CHR ''1'') (b58encode bs)) = ?z"
    unfolding b58encode_def using takeWhile_replicate_append [OF digs, of ?z] by simp
  have "b58decode (b58encode bs) = Inr (replicate ?z 0 @ (if ?n = 0 then [] else min_bytes ?n))"
    unfolding b58decode_def val ones by simp
  also have "\<dots> = Inr bs" unfolding tail using split by simp
  finally show ?thesis .
qed

lemma length_sha256_digest: "length (sha256_digest st) = 32"
  by (cases st rule: sha256_digest.cases) simp

lemma length_sha256: "length (sha256 msg) = 32"
  by (simp add: sha256_def length_sha256_digest)

lemma length_double_sha256_checksum: "length (double_sha256_checksum bs) = 4"
  by (simp add: double_sha256_checksum_def length_sha256)

lemma b58decode_check_b58encode_check: "b58decode_check (b58encode_check bs) = Inr bs"
  by (simp add: b58decode_check_def b58encode_check_def b58decode_b58encode
      length_double_sha256_checksum Let_def)

lemma b58value_error: "b58value a s = Inl e \<Longrightarrow> e = InvalidCharacter"
  by (induction s arbitrary: a) (auto split: option.splits)

lemma b58decode_error: "b58decode s = Inl e \<Longrightarrow> e = InvalidCharacter"
  by (cases "b58value 0 s") (auto simp: b58decode_def dest: b58value_error)

lemma b58decode_check_error:
  "b58decode_check s = Inl e \<Longrightarrow> e = InvalidCharacter \<or> e = InvalidChecksum"
  by (cases "b58decode s") (auto simp: b58decode_check_def Let_def dest: b58decode_error split: if_splits)

lemma length_b58digits_le: "0 \<le> n \<Longrightarrow> n < 58 ^ k \<Longrightarrow> length (b58digits n) \<le> k"
proof (induction k arbitrary: n)
  case 0
  then have "n = 0" by simp
  then show ?case by (subst b58digits.simps) simp
next
  case (Suc k)
  show ?case
  proof (cases "n \<le> 0")
    case True
    then show ?thesis by (subst b58digits.simps) simp
  next
    case False
    have "n div 58 < 58 ^ k" using Suc.prems by (simp add: div_less_iff_less_mult)
    moreover have "0 \<le> n div 58" using Suc.prems by simp
    ultimately have "length (b58digits (n div 58)) \<le> k" by (rule Suc.IH [rotated])
    with False show ?thesis by (subst b58digits.simps) simp
  qed
qed

lemma length_b58digits_ge: "58 ^ k \<le> n \<Longrightarrow> k < length (b58digits n)"
proof (induction k arbitrary: n)
  case 0
  then have "\<not> n \<le> 0" by simp
  then show ?case by (subst b58digits.simps) simp
next
  case (Suc k)
  have pos: "\<not> n \<le> 0" using Suc.prems zero_less_power [of "58::int" "Suc k"] by linarith
  have "(58 * 58 ^ k) div 58 \<le> n div (58::int)"
    using Suc.prems by (intro zdiv_mono1) simp_all
  then have "58 ^ k \<le> n div 58" by simp
  then have "k < length (b58digits (n div 58))" by (rule Suc.IH)
  with pos show ?case by (subst b58digits.simps) simp
qed

lemma length_b58encode:
  assumes "bs \<noteq> []" "hd bs \<noteq> 0" "58 ^ k \<le> from_bytes bs" "from_bytes bs < 58 ^ Suc k"
  shows "length (b58encode bs) = Suc k"
proof -
  have "takeWhile (\<lambda>b. b = 0) bs = []" using assms(1,2) by (cases bs) simp_all
  then have "b58encode bs = b58digits (from_bytes bs)" by (simp add: b58encode_def)
  moreover have "length (b58digits (from_bytes bs)) \<le> Suc k"
    using from_bytes_nonneg assms(4) by (rule length_b58digits_le)
  moreover have "k < length (b58digits (from_bytes bs))"
    using assms(3) by (rule length_b58digits_ge)
  ultimately show ?thesis by simp
qed

lemma hex_digits_all:
  "\<forall>i \<in> set [0..<16]. hex_value (hex_digits ! i) = Some i \<and> \<not> ascii_space (hex_digits ! i)"
  by code_simp

lemma hex_digit:
  assumes "i < 16"
  shows "hex_value (hex_digits ! i) = Some i" and "\<not> ascii_space (hex_digits ! i)"
  using hex_digits_all assms by auto

lemma byte_nibbles: "(of_nat (unat b div 16 * 16 + unat b mod 16) :: byte) = b"
  by simp

lemma unat_byte_div_16: "unat (b :: byte) div 16 < 16"
proof -
  have "unat b < 256" using unsigned_less [of b, where 'a = nat] by simp
  then show ?thesis by simp
qed

lemma fromhex_bytes_to_hex: "fromhex (bytes_to_hex bs) = Inr bs"
proof (induction bs)
  case Nil
  show ?case by (simp add: bytes_to_hex_def)
next
  case (Cons b bs)
  have m: "unat b mod 16 < 16" by simp
  have "bytes_to_hex (b # bs)
          = hex_digits ! (unat b div 16) # hex_digits ! (unat b mod 16) # bytes_to_hex bs"
    by (simp add: bytes_to_hex_def)
  then show ?case
    using Cons.IH hex_digit [OF unat_byte_div_16 [of b]] hex_digit [OF m]
    by simp
qed

lemma length_bytes_to_hex: "length (bytes_to_hex bs) = 2 * length bs"
  by (induction bs) (simp_all add: bytes_to_hex_def)

lemma hex_to_bytes_bytes_to_hex: "hex_to_bytes (bytes_to_hex bs) = Inr bs"
  by (simp add: hex_to_bytes_def length_bytes_to_hex fromhex_bytes_to_hex)

lemma from_bytes_Cons_bounds:
  "uint v * 256 ^ length rest \<le> from_bytes (v # rest)"
  "from_bytes (v # rest) < (uint v + 1) * 256 ^ length rest"
  using from_bytes_nonneg [of rest] from_bytes_bound [of rest]
  by (simp_all add: from_bytes_Cons algebra_simps)

lemma length_b58encode_high:
  assumes "0x80 \<le> v" and "length rest = n"
    and "58 ^ k \<le> (128::int) * 256 ^ n" and "(256::int) * 256 ^ n \<le> 58 ^ Suc k"
  shows "length (b58encode (v # rest)) = Suc k"
proof -
  have v: "128 \<le> uint v" using assms(1) by (simp add: word_le_def)
  have v2: "uint v + 1 \<le> 256" using uint_bounded [of v] by simp
  have "(128::int) * 256 ^ n \<le> uint v * 256 ^ n"
    using v by (intro mult_right_mono) simp_all
  with from_bytes_Cons_bounds(1) [of v rest, unfolded assms(2)] assms(3)
  have lo: "58 ^ k \<le> from_bytes (v # rest)" by linarith
  have "(uint v + 1) * 256 ^ n \<le> (256::int) * 256 ^ n"
    using v2 by (intro mult_right_mono) simp_all
  with from_bytes_Cons_bounds(2) [of v rest, unfolded assms(2)] assms(4)
  have hi: "from_bytes (v # rest) < 58 ^ Suc k" by linarith
  have "hd (v # rest) \<noteq> 0" using assms(1) by auto
  then show ?thesis using lo hi by (intro length_b58encode) simp_all
qed

lemma length_wif_compressed:
  assumes "0x80 \<le> v" and "length k = 32"
  shows "length (b58encode_check (v # k @ [0x01])) = 52"
proof -
  have "length (k @ [0x01] @ double_sha256_checksum (v # k @ [0x01])) = 37"
    using assms(2) by (simp add: length_double_sha256_checksum)
  with assms(1) have "length (b58encode (v # k @ [0x01] @ double_sha256_checksum (v # k @ [0x01]))) = Suc 51"
    by (rule length_b58encode_high) simp_all
  then show ?thesis by (simp add: b58encode_check_def)
qed

lemma length_wif_uncompressed:
  assumes "0x80 \<le> v" and "length k = 32"
  shows "length (b58encode_check (v # k)) = 51"
proof -
  have "length (k @ double_sha256_checksum (v # k)) = 36"
    using assms(2) by (simp add: length_double_sha256_checksum)
  with assms(1) have "length (b58encode (v # k @ double_sha256_checksum (v # k))) = Suc 50"
    by (rule length_b58encode_high) simp_all
  then show ?thesis by (simp add: b58encode_check_def)
qed

lemma wif_to_hex_payload:
  assumes "b58decode_check wif = Inr (v # rest)" and "v = 0x80 \<or> v = 0xef"
  shows "wif_to_hex wif =
           Inr (if length wif = 52 \<and> last (v # rest) = 0x01
                then (bytes_to_hex (butlast rest), True, if v = 0x80 then ''main'' else ''test'')
                else (bytes_to_hex rest, False, if v = 0x80 then ''main'' else ''test''))"
  using assms
  by (auto simp add: wif_to_hex_def MAIN_PRIVATE_KEY_def TEST_PRIVATE_KEY_def index_last_def)

lemma wif_to_hex_encoded:
  assumes "length k = 32" and "v = 0x80 \<or> v = 0xef"
  shows "wif_to_hex (b58encode_check (v # k @ (if compressed then [0x01] else [])))
           = Inr (bytes_to_hex k, compressed, if v = 0x80 then ''main'' else ''test'')"
proof -
  have v: "0x80 \<le> v" using assms(2) by auto
  show ?thesis
  proof (cases compressed)
    case True
    have "wif_to_hex (b58encode_check (v # k @ [0x01]))
            = Inr (bytes_to_hex (butlast (k @ [0x01])), True, if v = 0x80 then ''main'' else ''test'')"
      using wif_to_hex_payload [OF b58decode_check_b58encode_check assms(2), of "k @ [0x01]"]
        length_wif_compressed [OF v assms(1)]
      by simp
    with True show ?thesis by simp
  next
    case False
    have "wif_to_hex (b58encode_check (v # k))
            = Inr (bytes_to_hex k, False, if v = 0x80 then ''main'' else ''test'')"
      using wif_to_hex_payload [OF b58decode_check_b58encode_check assms(2), of k]
        length_wif_uncompressed [OF v assms(1)]
      by simp
    with False show ?thesis by simp
  qed
qed

lemma hex_to_wif_bytes:
  "hex_to_wif (KeyBytes k) version compressed
     = Inr (b58encode_check ((if version = ''test'' then 0xef else 0x80) # k
                              @ (if compressed then [0x01] else [])))"
  by (simp add: hex_to_wif_def MAIN_PRIVATE_KEY_def TEST_PRIVATE_KEY_def
      PRIVATE_KEY_COMPRESSED_PUBKEY_def)

lemma hex_to_wif_hex:
  "hex_to_wif (KeyHex (bytes_to_hex k)) version compressed
     = hex_to_wif (KeyBytes k) version compressed"
  by (simp add: hex_to_wif_def hex_to_bytes_bytes_to_hex)

section \<open>Test vectors\<close>

text \<open>
  The private key 1 in the compressed Wallet Import Format of the main network, the
  concrete vector of the specification. The checksum is two applications of SHA-256,
  each to one block.
\<close>

lemma sha256_one_compressed: "sha256 (0x80 # key_one @ [0x01]) = digest_one_compressed"
  by code_simp

lemma sha256_digest_one_compressed:
  "sha256 digest_one_compressed =
    [0x46, 0x71, 0xfc, 0x3f, 0x80, 0xde, 0x85, 0xb5, 0x0c, 0xc4, 0xd7, 0xd7, 0x18, 0xfb, 0xe4, 0x40,
     0x80, 0x0b, 0x88, 0x5d, 0xba, 0x9e, 0x2b, 0x4c, 0x2c, 0xf9, 0x30, 0xd1, 0xe4, 0x68, 0x24, 0x01]"
  by code_simp

lemma checksum_one_compressed: "double_sha256_checksum (0x80 # key_one @ [0x01]) = [0x46, 0x71, 0xfc, 0x3f]"
  by (simp add: double_sha256_checksum_def sha256_one_compressed sha256_digest_one_compressed)

lemma b58encode_one_compressed:
  "b58encode ((0x80 # key_one @ [0x01]) @ [0x46, 0x71, 0xfc, 0x3f]) = wif_one_compressed"
  by code_simp

lemma b58encode_check_one_compressed: "b58encode_check (0x80 # key_one @ [0x01]) = wif_one_compressed"
  unfolding b58encode_check_def checksum_one_compressed by (rule b58encode_one_compressed)

lemma b58decode_check_one_compressed: "b58decode_check wif_one_compressed = Inr (0x80 # key_one @ [0x01])"
  using b58decode_check_b58encode_check [of "0x80 # key_one @ [0x01]"] by (simp only: b58encode_check_one_compressed)

section \<open>Claims about the public-key codec\<close>

lemma from_bytes_replicate_zero: "from_bytes (replicate n 0) = 0"
  by (induction n) (simp_all add: from_bytes_Cons)

text \<open>
  C1, as stated, fails: a 65-byte input whose first byte is 0x00 is not rejected.
  The 65 zero bytes decode to the pair (0, 0).
\<close>

theorem public_key_to_coords_first_byte_counterexample:
  "public_key_to_coords x_to_y_none (replicate 65 0) = Inr (0, 0)"
  by (simp add: public_key_to_coords_def from_bytes_replicate_zero)

text \<open>
  C1, amended: \<open>public_key_to_coords\<close> rejects an input exactly when its length is
  neither 33 nor 65 (InvalidLength) or when its length is 33 and the decompression
  primitive fails on (x, first byte AND 1). A 65-byte input is decoded from bytes
  1..64 whatever its first byte is, and a 33-byte input uses only the low bit of
  its first byte.
\<close>

theorem public_key_to_coords_cases:
  "public_key_to_coords x_to_y pk =
     (if length pk = 65 then
        Inr (from_bytes (take 32 (drop 1 pk)), from_bytes (drop 33 pk))
      else if length pk = 33 then
        (case x_to_y (from_bytes (drop 1 pk)) (uint (hd pk) AND 1) of
           Inl e \<Rightarrow> Inl e
         | Inr y \<Rightarrow> Inr (from_bytes (drop 1 pk), y))
      else Inl InvalidLength)"
proof (cases pk)
  case Nil
  then show ?thesis by (simp add: public_key_to_coords_def)
next
  case (Cons b bs)
  show ?thesis unfolding Cons
    by (simp add: public_key_to_coords_def Let_def from_bytes_Cons cong: sum.case_cong)
qed

text \<open>
  C7: for every valid curve point, encoding it (compressed or uncompressed) succeeds and
  decoding the bytes gives the point back. A valid point has unsigned 32-byte
  coordinates and is one the decompression primitive recovers from \<open>x\<close> and the
  parity of \<open>y\<close>.
\<close>

theorem coords_roundtrip:
  assumes "valid_point x_to_y x y"
  shows "\<exists>pk. coords_to_public_key x y compressed = Inr pk \<and>
              public_key_to_coords x_to_y pk = Inr (x, y)"
proof -
  from assms have x: "0 \<le> x" "x < 256 ^ 32" and y: "0 \<le> y" "y < 256 ^ 32"
    and d: "x_to_y x (y AND 1) = Inr y"
    by (simp_all add: valid_point_def)
  note xb = to_bytes_ok [OF x] from_bytes_be_bytes_id [OF x]
  note yb = to_bytes_ok [OF y] from_bytes_be_bytes_id [OF y]
  show ?thesis
  proof (cases compressed)
    case True
    have "coords_to_public_key x y True =
            Inr ((if y AND 1 \<noteq> 0 then [0x03] else [0x02]) @ be_bytes 32 x)"
      by (simp add: coords_to_public_key_def xb PUBLIC_KEY_COMPRESSED_ODD_Y_def
            PUBLIC_KEY_COMPRESSED_EVEN_Y_def)
    moreover have "public_key_to_coords x_to_y
            ((if y AND 1 \<noteq> 0 then [0x03] else [0x02]) @ be_bytes 32 x) = Inr (x, y)"
      using and_one_cases [of y] d
      by (auto simp add: public_key_to_coords_def xb from_bytes_Cons)
    ultimately show ?thesis using True by simp
  next
    case False
    have "coords_to_public_key x y False = Inr ([0x04] @ be_bytes 32 x @ be_bytes 32 y)"
      by (simp add: coords_to_public_key_def xb yb PUBLIC_KEY_UNCOMPRESSED_def)
    moreover have "public_key_to_coords x_to_y ([0x04] @ be_bytes 32 x @ be_bytes 32 y)
            = Inr (x, y)"
      by (simp add: public_key_to_coords_def xb yb)
    ultimately show ?thesis using False by simp
  qed
qed

theorem coords_roundtrip_witness:
  "(\<exists>pk. coords_to_public_key secp256k1_Gx secp256k1_Gy True = Inr pk \<and>
         public_key_to_coords x_to_y_G pk = Inr (secp256k1_Gx, secp256k1_Gy)) \<and>
   (\<exists>pk. coords_to_public_key secp256k1_Gx secp256k1_Gy False = Inr pk \<and>
         public_key_to_coords x_to_y_G pk = Inr (secp256k1_Gx, secp256k1_Gy))"
proof -
  have "valid_point x_to_y_G secp256k1_Gx secp256k1_Gy"
    by (simp add: valid_point_def x_to_y_G_def secp256k1_Gx_def secp256k1_Gy_def)
  then show ?thesis
    using coords_roundtrip [of x_to_y_G secp256k1_Gx secp256k1_Gy] by blast
qed

text \<open>
  C8: for every well-formed public key of 33 or 65 bytes, decoding succeeds and encoding
  the coordinates again, compressed for 33 bytes and uncompressed for 65, gives the
  input bytes back.
\<close>

theorem public_key_reencode:
  assumes "well_formed_public_key x_to_y pk"
  shows "\<exists>x y. public_key_to_coords x_to_y pk = Inr (x, y) \<and>
               coords_to_public_key x y (length pk = 33) = Inr pk"
proof -
  from assms consider
      (u) "length pk = 65" "take 1 pk = [0x04]"
    | (c) y where "length pk = 33" "take 1 pk = [0x02] \<or> take 1 pk = [0x03]"
        "x_to_y (from_bytes (drop 1 pk)) (from_bytes (take 1 pk) AND 1) = Inr y"
        "y AND 1 = from_bytes (take 1 pk) AND 1"
    by (auto simp: well_formed_public_key_def PUBLIC_KEY_UNCOMPRESSED_def
          PUBLIC_KEY_COMPRESSED_ODD_Y_def PUBLIC_KEY_COMPRESSED_EVEN_Y_def)
  then show ?thesis
  proof cases
    case u
    let ?xs = "take 32 (drop 1 pk)" and ?ys = "drop 33 pk"
    have l: "length ?xs = 32" "length ?ys = 32" using u by simp_all
    have pk: "pk = [0x04] @ ?xs @ ?ys"
      using u(2) by (metis append_take_drop_id drop_drop take_drop One_nat_def
            numeral_plus_one semiring_norm(5))
    have d: "public_key_to_coords x_to_y pk = Inr (from_bytes ?xs, from_bytes ?ys)"
      using u by (simp add: public_key_to_coords_def)
    have "coords_to_public_key (from_bytes ?xs) (from_bytes ?ys) False = Inr ([0x04] @ ?xs @ ?ys)"
      using to_bytes_from_bytes [of ?xs] to_bytes_from_bytes [of ?ys] l
      by (simp add: coords_to_public_key_def PUBLIC_KEY_UNCOMPRESSED_def)
    with d pk u show ?thesis by simp
  next
    case c
    let ?xs = "drop 1 pk"
    have l: "length ?xs = 32" using c by simp
    have pk: "pk = take 1 pk @ ?xs" by simp
    have d: "public_key_to_coords x_to_y pk = Inr (from_bytes ?xs, y)"
      using c by (simp add: public_key_to_coords_def)
    have p: "(if y AND 1 \<noteq> 0 then [0x03] else [0x02 :: byte]) = take 1 pk"
      using c(2,4) by (auto simp: from_bytes_Cons)
    have "coords_to_public_key (from_bytes ?xs) y True
            = Inr ((if y AND 1 \<noteq> 0 then [0x03] else [0x02]) @ ?xs)"
      using to_bytes_from_bytes [of ?xs] l
      by (simp add: coords_to_public_key_def PUBLIC_KEY_COMPRESSED_ODD_Y_def
            PUBLIC_KEY_COMPRESSED_EVEN_Y_def)
    then have "coords_to_public_key (from_bytes ?xs) y True = Inr pk"
      unfolding p by simp
    with d c show ?thesis by simp
  qed
qed

lemma well_formed_G_compressed: "well_formed_public_key x_to_y_G secp256k1_G_compressed"
  unfolding well_formed_public_key_def
  by (simp add: secp256k1_G_compressed_def PUBLIC_KEY_COMPRESSED_EVEN_Y_def x_to_y_G_def
      from_bytes_def secp256k1_Gx_def secp256k1_Gy_def)

theorem public_key_reencode_witness:
  "\<exists>x y. public_key_to_coords x_to_y_G secp256k1_G_compressed = Inr (x, y) \<and>
         coords_to_public_key x y True = Inr secp256k1_G_compressed"
proof -
  have "length secp256k1_G_compressed = 33" by (simp add: secp256k1_G_compressed_def)
  with public_key_reencode [OF well_formed_G_compressed] show ?thesis by simp
qed

section \<open>Claims about signatures\<close>

lemma decode_high_s_signature:
  "decode_dss_signature high_s_signature = Inr (1, secp256k1_N - 1)"
  by code_simp




text \<open>
  C4: for every decodable signature \<open>(r, s)\<close> with \<open>s > GROUP_ORDER // 2\<close>, the result
  of \<open>make_compliant_sig\<close> is the serialization of \<open>(r, GROUP_ORDER - s)\<close>, and
  \<open>GROUP_ORDER - s \<le> GROUP_ORDER // 2\<close>. The serialization fails with OverflowError
  when \<open>r\<close> is negative or \<open>s\<close> exceeds the order; for 32-byte values it succeeds and
  the produced bytes decode to \<open>(r, GROUP_ORDER - s)\<close>.
\<close>

theorem make_compliant_sig_low_s:
  assumes "decode_dss_signature signature = Inr (r, s)" and "GROUP_ORDER div 2 < s"
  shows "make_compliant_sig GROUP_ORDER signature = encode_sig r (GROUP_ORDER - s) \<and>
         GROUP_ORDER - s \<le> GROUP_ORDER div 2 \<and>
         (0 \<le> r \<and> r < 2 ^ 256 \<and> s \<le> GROUP_ORDER \<and> GROUP_ORDER < 2 ^ 256 \<longrightarrow>
            (\<exists>out. make_compliant_sig GROUP_ORDER signature = Inr out \<and>
                   decode_dss_signature out = Inr (r, GROUP_ORDER - s)))"
proof -
  have m: "make_compliant_sig GROUP_ORDER signature = encode_sig r (GROUP_ORDER - s)"
    using assms by (simp add: make_compliant_sig_eq low_s_def)
  have le: "GROUP_ORDER - s \<le> GROUP_ORDER div 2"
    using assms(2) by simp
  have "\<exists>out. make_compliant_sig GROUP_ORDER signature = Inr out \<and>
              decode_dss_signature out = Inr (r, GROUP_ORDER - s)"
    if h: "0 \<le> r" "r < 2 ^ 256" "s \<le> GROUP_ORDER" "GROUP_ORDER < 2 ^ 256"
  proof -
    have s: "0 \<le> GROUP_ORDER - s" "GROUP_ORDER - s < 2 ^ 256" using h le by simp_all
    from h(1) s(1) obtain out where out: "encode_sig r (GROUP_ORDER - s) = Inr out"
      by (simp add: encode_sig_nonneg)
    with decode_encode_sig [OF h(1,2) s] have "decode_dss_signature out = Inr (r, GROUP_ORDER - s)"
      by simp
    with out m show ?thesis by simp
  qed
  with m le show ?thesis by blast
qed

theorem make_compliant_sig_low_s_witness:
  "make_compliant_sig secp256k1_N high_s_signature = encode_sig 1 1 \<and>
   (\<exists>out. make_compliant_sig secp256k1_N high_s_signature = Inr out \<and>
          decode_dss_signature out = Inr (1, 1))"
proof -
  have a: "secp256k1_N div 2 < secp256k1_N - 1" by (simp add: secp256k1_N_def)
  have b: "secp256k1_N < 2 ^ 256" by (simp add: secp256k1_N_def)
  have c: "0 \<le> (1::int) \<and> (1::int) < 2 ^ 256 \<and> secp256k1_N - 1 \<le> secp256k1_N \<and>
           secp256k1_N < 2 ^ 256"
    using b by simp
  have e: "secp256k1_N - (secp256k1_N - 1) = 1" by simp
  from make_compliant_sig_low_s [OF decode_high_s_signature a] c
  show ?thesis unfolding e by blast
qed

text \<open>
  C5: a signature whose decoded \<open>s\<close> is \<open>GROUP_ORDER - 1\<close> is rejected with
  InvalidSignature under \<open>strict=True\<close>, whatever the data and the public key are;
  under \<open>strict=False\<close> the same bytes go to the verification primitive with the decoded
  public key, and the result is the primitive's. The order of a group is more than 2.
\<close>

theorem verify_sig_strict_high_s:
  assumes "decode_dss_signature signature = Inr (r, s)"
    and "s = GROUP_ORDER - 1" and "2 < GROUP_ORDER"
  shows "verify_sig verify_signature x_to_y GROUP_ORDER signature data public_key True
           = Inl InvalidSignature \<and>
         verify_sig verify_signature x_to_y GROUP_ORDER signature data public_key False
           = and_then (public_key_to_coords x_to_y public_key)
               (\<lambda>coords. verify_signature signature data coords)"
proof -
  have "GROUP_ORDER div 2 < GROUP_ORDER - 1" using assms(3) by presburger
  then show ?thesis using assms(1,2) by (simp add: verify_sig_def)
qed

theorem verify_sig_strict_high_s_witness:
  "verify_sig verify_signature_accept x_to_y_G secp256k1_N high_s_signature []
       secp256k1_G_compressed True = Inl InvalidSignature \<and>
   verify_sig verify_signature_accept x_to_y_G secp256k1_N high_s_signature []
       secp256k1_G_compressed False = Inr True"
proof -
  have n: "(2::int) < secp256k1_N" by (simp add: secp256k1_N_def)
  have "public_key_to_coords x_to_y_G secp256k1_G_compressed = Inr (secp256k1_Gx, secp256k1_Gy)"
    by (simp add: public_key_to_coords_def secp256k1_G_compressed_def x_to_y_G_def
        from_bytes_def secp256k1_Gx_def secp256k1_Gy_def)
  with verify_sig_strict_high_s [OF decode_high_s_signature refl n]
  show ?thesis by (simp add: verify_signature_accept_def)
qed




section \<open>Claims about addresses and the Wallet Import Format\<close>

lemma length_key_one: "length key_one = 32"
  by (simp add: key_one_def)

lemma last_key_one: "last (0x80 # key_one) = 0x01"
  by (simp add: key_one_def)

lemma length_key_one_flag: "length (key_one @ [0x01]) = 33"
  by (simp add: key_one_def)

text \<open>
  C2, as stated, fails twice over. The text \<open>wif_one_compressed\<close> passes the checksum
  and carries the version byte 0x80 of a private key: \<open>address_to_public_key_hash\<close>
  does not fail with InvalidVersion and returns the 33 bytes after the version byte,
  not 20. The Base58Check text of the bytes 0x42 0x01, whose first byte is no version
  byte of the module, yields the one byte 0x01.
\<close>

theorem address_to_public_key_hash_counterexample:
  "address_to_public_key_hash wif_one_compressed = Inr (key_one @ [0x01]) \<and>
   length (key_one @ [0x01]) = 33 \<and>
   address_to_public_key_hash (b58encode_check [0x42, 0x01]) = Inr [0x01]"
  by (simp add: address_to_public_key_hash_def b58decode_check_one_compressed
      b58decode_check_b58encode_check length_key_one)

text \<open>
  C2, amended: \<open>address_to_public_key_hash\<close> Base58Check-decodes the text and returns
  every byte after the first, whatever the first byte is and however many bytes
  follow. It fails only as the decoding fails, with ValueError for a character outside
  the alphabet or for a checksum mismatch, and never with InvalidVersion.
\<close>

theorem address_to_public_key_hash_cases:
  "address_to_public_key_hash address =
     (case b58decode_check address of Inl e \<Rightarrow> Inl e | Inr decoded \<Rightarrow> Inr (drop 1 decoded)) \<and>
   ((\<exists>h. address_to_public_key_hash address = Inr h) \<or>
    address_to_public_key_hash address = Inl InvalidCharacter \<or>
    address_to_public_key_hash address = Inl InvalidChecksum) \<and>
   address_to_public_key_hash (b58encode_check (v # h)) = Inr h"
proof -
  have 1: "address_to_public_key_hash address =
     (case b58decode_check address of Inl e \<Rightarrow> Inl e | Inr decoded \<Rightarrow> Inr (drop 1 decoded))"
    by (cases "b58decode_check address") (simp_all add: address_to_public_key_hash_def)
  have 2: "(\<exists>h. address_to_public_key_hash address = Inr h) \<or>
    address_to_public_key_hash address = Inl InvalidCharacter \<or>
    address_to_public_key_hash address = Inl InvalidChecksum"
  proof (cases "b58decode_check address")
    case (Inl e)
    with b58decode_check_error [OF Inl] show ?thesis unfolding 1 by auto
  next
    case (Inr d)
    then show ?thesis unfolding 1 by simp
  qed
  have 3: "address_to_public_key_hash (b58encode_check (v # h)) = Inr h"
    by (simp add: address_to_public_key_hash_def b58decode_check_b58encode_check)
  from 1 2 3 show ?thesis by blast
qed

text \<open>
  C3: for every 32-byte key, each network name and each compression flag,
  \<open>hex_to_wif\<close> succeeds and \<open>wif_to_hex\<close> of its text returns the key, the flag and
  the network. \<open>wif_to_hex\<close> returns the key as hexadecimal text, which
  \<open>hex_to_wif\<close> accepts in place of the bytes with the same result and which
  \<open>hex_to_bytes\<close> turns back into the bytes.
\<close>

theorem wif_roundtrip:
  assumes "length k = 32" and "version = ''main'' \<or> version = ''test''"
  shows "\<exists>wif. hex_to_wif (KeyBytes k) version compressed = Inr wif \<and>
               hex_to_wif (KeyHex (bytes_to_hex k)) version compressed = Inr wif \<and>
               wif_to_hex wif = Inr (bytes_to_hex k, compressed, version) \<and>
               hex_to_bytes (bytes_to_hex k) = Inr k"
proof -
  let ?v = "if version = ''test'' then 0xef else (0x80 :: byte)"
  have "?v = 0x80 \<or> ?v = 0xef" by simp
  from wif_to_hex_encoded [OF assms(1) this, of compressed] assms(2)
  have "wif_to_hex (b58encode_check (?v # k @ (if compressed then [0x01] else [])))
          = Inr (bytes_to_hex k, compressed, version)"
    by auto
  then show ?thesis
    by (simp add: hex_to_wif_hex hex_to_wif_bytes hex_to_bytes_bytes_to_hex)
qed

theorem wif_roundtrip_witness:
  "hex_to_wif (KeyBytes key_one) ''main'' True = Inr wif_one_compressed \<and>
   wif_to_hex wif_one_compressed = Inr (bytes_to_hex key_one, True, ''main'')"
proof -
  have e: "hex_to_wif (KeyBytes key_one) ''main'' True = Inr wif_one_compressed"
    by (simp add: hex_to_wif_bytes b58encode_check_one_compressed)
  from wif_roundtrip [OF length_key_one, of "''main''" True]
  obtain wif where "hex_to_wif (KeyBytes key_one) ''main'' True = Inr wif"
    and "wif_to_hex wif = Inr (bytes_to_hex key_one, True, ''main'')"
    by auto
  with e show ?thesis by simp
qed

text \<open>
  C9: \<open>wif_checksum_check\<close> returns a boolean for every text: False when the
  Base58Check decoding fails, and otherwise whether the first decoded byte is 0x80 or
  0xef.
\<close>

theorem wif_checksum_check_total:
  "wif_checksum_check wif =
     Inr (case b58decode_check wif of
            Inl e \<Rightarrow> False
          | Inr decoded \<Rightarrow> take 1 decoded = [0x80] \<or> take 1 decoded = [0xef])"
proof (cases "b58decode_check wif")
  case (Inl e)
  then have "is_ValueError e" using b58decode_check_error [of wif e] by auto
  with Inl show ?thesis by (simp add: wif_checksum_check_def)
next
  case (Inr decoded)
  then show ?thesis
    by (simp add: wif_checksum_check_def MAIN_PRIVATE_KEY_def TEST_PRIVATE_KEY_def)
qed

text \<open>
  C10: whenever \<open>wif_to_hex\<close> accepts a text, it reports \<open>compressed\<close> exactly when
  the text has 52 characters and the last decoded byte is 0x01; the key is then the
  decoded bytes without the first and the last. Otherwise, also when the last byte is
  0x01 and the text does not have 52 characters, the key is every decoded byte after
  the first.
\<close>

theorem wif_to_hex_compressed_flag:
  assumes "wif_to_hex wif = Inr (key, compressed, version)"
  shows "\<exists>private_key. b58decode_check wif = Inr private_key \<and> private_key \<noteq> [] \<and>
           (compressed \<longleftrightarrow> length wif = 52 \<and> last private_key = 0x01) \<and>
           (compressed \<longrightarrow> key = bytes_to_hex (butlast (drop 1 private_key))) \<and>
           (\<not> compressed \<longrightarrow> key = bytes_to_hex (drop 1 private_key))"
proof (cases "b58decode_check wif")
  case (Inl e)
  with assms show ?thesis by (simp add: wif_to_hex_def)
next
  case (Inr private_key)
  show ?thesis
  proof (cases private_key)
    case Nil
    with Inr assms show ?thesis
      by (simp add: wif_to_hex_def MAIN_PRIVATE_KEY_def TEST_PRIVATE_KEY_def)
  next
    case (Cons v rest)
    have v: "v = 0x80 \<or> v = 0xef"
      using assms Inr Cons
      by (auto simp: wif_to_hex_def MAIN_PRIVATE_KEY_def TEST_PRIVATE_KEY_def split: if_splits)
    from wif_to_hex_payload [OF Inr [unfolded Cons] v] assms
    show ?thesis unfolding Inr Cons by (auto split: if_splits)
  qed
qed

theorem wif_to_hex_compressed_flag_witness:
  "wif_to_hex (b58encode_check (0x80 # key_one)) = Inr (bytes_to_hex key_one, False, ''main'') \<and>
   length (b58encode_check (0x80 # key_one)) = 51 \<and>
   (\<exists>private_key. b58decode_check (b58encode_check (0x80 # key_one)) = Inr private_key \<and>
      last private_key = 0x01 \<and>
      bytes_to_hex key_one = bytes_to_hex (drop 1 private_key))"
proof -
  let ?wif = "b58encode_check (0x80 # key_one)"
  have v: "(0x80 :: byte) = 0x80 \<or> (0x80 :: byte) = 0xef" by simp
  have l: "length ?wif = 51"
    by (rule length_wif_uncompressed [OF _ length_key_one]) simp
  have d: "b58decode_check ?wif = Inr (0x80 # key_one)"
    by (rule b58decode_check_b58encode_check)
  from wif_to_hex_payload [OF d v]
  have h: "wif_to_hex ?wif = Inr (bytes_to_hex key_one, False, ''main'')"
    by (simp add: l)
  from wif_to_hex_compressed_flag [OF h]
  obtain private_key where "b58decode_check ?wif = Inr private_key"
    and "bytes_to_hex key_one = bytes_to_hex (drop 1 private_key)"
    by auto
  then show ?thesis
    using h d l last_key_one by auto
qed

end
